theory Spec2Isabelle
  imports Main "HOL-Library.Word"
begin

section \<open>The file-system poller of libuv (deps/uv/src/fs-poll.c)\<close>

text \<open>
  The poller alternates between a non-blocking stat request and a one-shot timer. Each C
  function of \<^verbatim>\<open>fs-poll.c\<close> is translated into a function on an explicit state: the
  polling context \<^verbatim>\<open>struct poll_ctx\<close> is a record, the heap of contexts is a map from
  addresses, and the calls the code makes into the user's callback and into \<^verbatim>\<open>free\<close>
  are appended to logs kept in the state, so that how often and with which arguments
  they happen can be stated.
\<close>

subsection \<open>Metadata snapshots and their comparison\<close>

text \<open>
  \<^verbatim>\<open>uv_statbuf_t\<close> is the platform's \<^verbatim>\<open>struct stat\<close>; its declaration is not part of
  \<^verbatim>\<open>fs-poll.c\<close>. The record has the fields that \<^verbatim>\<open>statbuf_eq\<close> reads. The sub-second
  parts of the change and modification times have different names on different platforms
  (\<^verbatim>\<open>st_ctim.tv_nsec\<close>, \<^verbatim>\<open>st_ctimensec\<close>, \<^verbatim>\<open>st_ctimespec.tv_nsec\<close>); they are the fields
  \<open>st_ctim_nsec\<close> and \<open>st_mtim_nsec\<close> here. All fields are taken as 64-bit values; only
  their equality is ever used.
\<close>

record uv_statbuf_t =
  st_dev :: "64 word"
  st_ino :: "64 word"
  st_mode :: "64 word"
  st_uid :: "64 word"
  st_gid :: "64 word"
  st_size :: "64 word"
  st_mtime :: "64 word"
  st_ctime :: "64 word"
  st_mtim_nsec :: "64 word"
  st_ctim_nsec :: "64 word"

text \<open>\<^verbatim>\<open>static uv_statbuf_t zero_statbuf;\<close> has static storage, so every field is zero.\<close>

definition zero_statbuf :: uv_statbuf_t where
  "zero_statbuf = \<lparr> st_dev = 0, st_ino = 0, st_mode = 0, st_uid = 0, st_gid = 0,
     st_size = 0, st_mtime = 0, st_ctime = 0, st_mtim_nsec = 0, st_ctim_nsec = 0 \<rparr>"

text \<open>
  The conditional compilation of \<^verbatim>\<open>statbuf_eq\<close>: \<^verbatim>\<open>_WIN32\<close>, \<^verbatim>\<open>__linux__\<close>,
  \<^verbatim>\<open>__APPLE__\<close>, or none of them (another Unix).
\<close>

datatype platform = Win32 | Linux | Apple | OtherUnix

definition statbuf_eq :: "platform \<Rightarrow> uv_statbuf_t \<Rightarrow> uv_statbuf_t \<Rightarrow> bool" where
  "statbuf_eq p a b =
     (if p = Win32 then
        st_mtime a = st_mtime b \<and> st_size a = st_size b \<and> st_mode a = st_mode b
      else if p = Linux \<and> st_ctim_nsec a \<noteq> st_ctim_nsec b then False
      else if p = Linux \<and> st_mtim_nsec a \<noteq> st_mtim_nsec b then False
      else if p = Apple \<and> st_ctim_nsec a \<noteq> st_ctim_nsec b then False
      else if p = Apple \<and> st_mtim_nsec a \<noteq> st_mtim_nsec b then False
      else
        st_ctime a = st_ctime b \<and> st_mtime a = st_mtime b \<and> st_size a = st_size b
        \<and> st_mode a = st_mode b \<and> st_uid a = st_uid b \<and> st_gid a = st_gid b
        \<and> st_ino a = st_ino b \<and> st_dev a = st_dev b)"

text \<open>Two snapshots that agree in each of the ten fields of the record.\<close>

definition same_fields :: "uv_statbuf_t \<Rightarrow> uv_statbuf_t \<Rightarrow> bool" where
  "same_fields a b =
     (st_size a = st_size b \<and> st_mode a = st_mode b \<and> st_uid a = st_uid b
      \<and> st_gid a = st_gid b \<and> st_ino a = st_ino b \<and> st_dev a = st_dev b
      \<and> st_mtime a = st_mtime b \<and> st_ctime a = st_ctime b
      \<and> st_mtim_nsec a = st_mtim_nsec b \<and> st_ctim_nsec a = st_ctim_nsec b)"

subsection \<open>The polling context, the handle and the loop\<close>

text \<open>
  A C \<^verbatim>\<open>int\<close> is a 32-bit word; it is read as a signed number (\<open>sint\<close>, \<open><s\<close>) where
  the code compares it with 0.
\<close>

type_synonym addr = nat
type_synonym c_int = "32 word"

text \<open>
  The timer \<^verbatim>\<open>uv_timer_t\<close> embedded in a context, as far as the poller can tell its states
  apart: initialised and not running, armed with a delay in milliseconds, or being closed
  (\<^verbatim>\<open>uv_close\<close> was called and its close callback is still to come).
\<close>

datatype uv_timer_t = TimerIdle | TimerArmed "64 word" | TimerClosing

text \<open>
  \<^verbatim>\<open>struct poll_ctx\<close>. The field \<^verbatim>\<open>poll_cb\<close> (the user's callback) is \<open>poll_cb_fn\<close>,
  since \<open>poll_cb\<close> is the stat completion handler below; a callback is identified by a
  number. \<open>fs_req\<close> says whether the embedded stat request is in flight. The pointer
  \<^verbatim>\<open>loop\<close> is left out: there is one loop, the state itself.
\<close>

record poll_ctx =
  parent_handle :: "addr option"
  busy_polling :: c_int
  interval :: "32 word"
  start_time :: "64 word"
  poll_cb_fn :: nat
  timer_handle :: uv_timer_t
  fs_req :: bool
  statbuf :: uv_statbuf_t
  path :: string

text \<open>
  A completed stat request as \<^verbatim>\<open>poll_cb\<close> reads it: \<^verbatim>\<open>req->result\<close>,
  \<^verbatim>\<open>req->errorno\<close> and the snapshot \<^verbatim>\<open>req->ptr\<close> points to (read only when the result
  is 0).
\<close>

record uv_fs_t =
  result :: "64 word"
  errorno :: c_int
  ptr :: uv_statbuf_t

text \<open>
  The owning handle \<^verbatim>\<open>uv_fs_poll_t\<close>: whether it is active, and its slot for the
  context.
\<close>

record uv_fs_poll_t =
  active :: bool
  poll_ctx :: "addr option"

text \<open>
  Modelled from the spec: the macros \<^verbatim>\<open>uv__is_active\<close>, \<^verbatim>\<open>uv__handle_start\<close> and
  \<^verbatim>\<open>uv__handle_stop\<close> of \<^verbatim>\<open>uv-common.h\<close> are not in \<^verbatim>\<open>fs-poll.c\<close>. They are the
  spec's \<open>isActive()\<close>, \<open>markActive()\<close> and \<open>markInactive()\<close>: they read and write one
  flag of the handle.
\<close>

definition uv__is_active :: "uv_fs_poll_t \<Rightarrow> bool" where
  "uv__is_active hnd = active hnd"

definition uv__handle_start :: "uv_fs_poll_t \<Rightarrow> uv_fs_poll_t" where
  "uv__handle_start hnd = hnd\<lparr>active := True\<rparr>"

definition uv__handle_stop :: "uv_fs_poll_t \<Rightarrow> uv_fs_poll_t" where
  "uv__handle_stop hnd = hnd\<lparr>active := False\<rparr>"

text \<open>One invocation of a user callback: \<^verbatim>\<open>cb(handle, status, prev, curr)\<close>.\<close>

record cb_call =
  cb_fn :: nat
  cb_handle :: addr
  cb_status :: c_int
  cb_prev :: uv_statbuf_t
  cb_curr :: uv_statbuf_t

text \<open>
  The error the loop remembers (\<^verbatim>\<open>loop->last_err\<close>): the constant \<^verbatim>\<open>UV_ENOMEM\<close>, whose
  number is declared in \<^verbatim>\<open>uv.h\<close>, or a code taken from a request.
\<close>

datatype uv_err = UV_OK | UV_ENOMEM | UV_ERRNO c_int

text \<open>
  The state of the loop: its clock (\<^verbatim>\<open>uv_now\<close>), its last error, the handles and the
  allocated contexts by address, the calls made to user callbacks (oldest first) and the
  arguments given to \<^verbatim>\<open>free\<close> (oldest first).
\<close>

record loop_state =
  time :: "64 word"
  last_err :: uv_err
  handles :: "addr \<rightharpoonup> uv_fs_poll_t"
  ctxs :: "addr \<rightharpoonup> poll_ctx"
  cb_calls :: "cb_call list"
  freed :: "addr list"

text \<open>What stops a function before it returns.\<close>

datatype fault = Aborted | AssertFailed | BadPointer | DivByZero

subsection \<open>The primitives of the loop\<close>

text \<open>
  Modelled from the spec: the timer and stat primitives are not in \<^verbatim>\<open>fs-poll.c\<close>. The
  spec's contract for them: \<open>timerStart\<close> schedules a one-shot callback after a delay,
  \<open>timerStop\<close> cancels it, \<open>timerClose\<close> is followed by exactly one close notification,
  \<open>statAsync\<close> delivers exactly one completion and cannot be cancelled. Each returns the
  code the C function returns (0 for success) and the context it has changed.
\<close>

definition uv_now :: "loop_state \<Rightarrow> 64 word" where
  "uv_now s = time s"

definition uv_timer_init :: "poll_ctx \<Rightarrow> c_int \<times> poll_ctx" where
  "uv_timer_init ctx = (0, ctx\<lparr>timer_handle := TimerIdle\<rparr>)"

definition uv_timer_start :: "64 word \<Rightarrow> poll_ctx \<Rightarrow> c_int \<times> poll_ctx" where
  "uv_timer_start timeout ctx = (0, ctx\<lparr>timer_handle := TimerArmed timeout\<rparr>)"

definition uv_timer_stop :: "poll_ctx \<Rightarrow> poll_ctx" where
  "uv_timer_stop ctx =
     (case timer_handle ctx of
        TimerArmed t \<Rightarrow> ctx\<lparr>timer_handle := TimerIdle\<rparr>
      | _ \<Rightarrow> ctx)"

definition uv_close :: "poll_ctx \<Rightarrow> poll_ctx" where
  "uv_close ctx = ctx\<lparr>timer_handle := TimerClosing\<rparr>"

definition uv_fs_stat :: "poll_ctx \<Rightarrow> c_int \<times> poll_ctx" where
  "uv_fs_stat ctx = (0, ctx\<lparr>fs_req := True\<rparr>)"

definition uv_fs_req_cleanup :: "poll_ctx \<Rightarrow> poll_ctx" where
  "uv_fs_req_cleanup ctx = ctx\<lparr>fs_req := False\<rparr>"

definition uv__set_artificial_error :: "uv_err \<Rightarrow> loop_state \<Rightarrow> c_int \<times> loop_state" where
  "uv__set_artificial_error code s = (- 1, s\<lparr>last_err := code\<rparr>)"

text \<open>
  Calling the user's callback appends the call to the log. The callback is taken to
  return without calling into the poller itself.
\<close>

definition call_poll_cb ::
  "nat \<Rightarrow> addr \<Rightarrow> c_int \<Rightarrow> uv_statbuf_t \<Rightarrow> uv_statbuf_t \<Rightarrow> loop_state \<Rightarrow> loop_state" where
  "call_poll_cb f h st prev cur s =
     s\<lparr>cb_calls := cb_calls s @
        [\<lparr>cb_fn = f, cb_handle = h, cb_status = st, cb_prev = prev, cb_curr = cur\<rparr>]\<rparr>"

subsection \<open>The functions of fs-poll.c\<close>

text \<open>
  \<^verbatim>\<open>uv_fs_poll_init\<close> only calls \<^verbatim>\<open>uv__handle_init\<close>, which sets up the generic part of
  the handle: the handle is not active, and its slot for the context is left as it was.
\<close>

definition uv_fs_poll_init :: "addr \<Rightarrow> loop_state \<Rightarrow> fault + (c_int \<times> loop_state)" where
  "uv_fs_poll_init h s =
     (case handles s h of
        None \<Rightarrow> Inl BadPointer
      | Some hnd \<Rightarrow> Inr (0, s\<lparr>handles := (handles s)(h \<mapsto> hnd\<lparr>active := False\<rparr>)\<rparr>))"

text \<open>
  The context as \<^verbatim>\<open>calloc(1, sizeof(*ctx) + len)\<close> returns it: every byte is zero.
\<close>

definition calloc_ctx :: poll_ctx where
  "calloc_ctx = \<lparr> parent_handle = None, busy_polling = 0, interval = 0, start_time = 0,
     poll_cb_fn = 0, timer_handle = TimerIdle, fs_req = False, statbuf = zero_statbuf,
     path = [] \<rparr>"

text \<open>
  \<^verbatim>\<open>uv_fs_poll_start(handle, cb, path, interval)\<close>. The argument \<open>mem\<close> is what
  \<^verbatim>\<open>calloc\<close> returns: the address of the new context, or \<open>None\<close> for \<^verbatim>\<open>NULL\<close>.
\<close>

definition uv_fs_poll_start ::
  "addr option \<Rightarrow> addr \<Rightarrow> nat \<Rightarrow> string \<Rightarrow> 32 word \<Rightarrow> loop_state
     \<Rightarrow> fault + (c_int \<times> loop_state)" where
  "uv_fs_poll_start mem h cb pth ival s =
     (case handles s h of
        None \<Rightarrow> Inl BadPointer
      | Some hnd \<Rightarrow>
          if uv__is_active hnd then Inr (0, s)
          else
            (case mem of
               None \<Rightarrow> Inr (uv__set_artificial_error UV_ENOMEM s)
             | Some a \<Rightarrow>
                 let ctx = calloc_ctx
                       \<lparr> poll_cb_fn := cb,
                         interval := (if ival \<noteq> 0 then ival else 1),
                         start_time := uv_now s,
                         parent_handle := Some h,
                         path := pth \<rparr>;
                     (rc1, ctx1) = uv_timer_init ctx
                 in if rc1 \<noteq> 0 then Inl Aborted
                    else
                      let (rc2, ctx2) = uv_fs_stat ctx1
                      in if rc2 \<noteq> 0 then Inl Aborted
                         else Inr (0, s\<lparr> ctxs := (ctxs s)(a \<mapsto> ctx2),
                                       handles := (handles s)
                                         (h \<mapsto> uv__handle_start (hnd\<lparr>poll_ctx := Some a\<rparr>)) \<rparr>)))"

definition uv_fs_poll_stop :: "addr \<Rightarrow> loop_state \<Rightarrow> fault + (c_int \<times> loop_state)" where
  "uv_fs_poll_stop h s =
     (case handles s h of
        None \<Rightarrow> Inl BadPointer
      | Some hnd \<Rightarrow>
          if \<not> uv__is_active hnd then Inr (0, s)
          else
            (case poll_ctx hnd of
               None \<Rightarrow> Inl AssertFailed
             | Some a \<Rightarrow>
                 (case ctxs s a of
                    None \<Rightarrow> Inl BadPointer
                  | Some ctx \<Rightarrow>
                      if parent_handle ctx = None then Inl AssertFailed
                      else
                        Inr (0, s\<lparr> ctxs := (ctxs s)
                                     (a \<mapsto> uv_timer_stop (ctx\<lparr>parent_handle := None\<rparr>)),
                                   handles := (handles s)
                                     (h \<mapsto> uv__handle_stop (hnd\<lparr>poll_ctx := None\<rparr>)) \<rparr>))))"

definition uv__fs_poll_close :: "addr \<Rightarrow> loop_state \<Rightarrow> fault + loop_state" where
  "uv__fs_poll_close h s =
     (case uv_fs_poll_stop h s of Inl f \<Rightarrow> Inl f | Inr (rc, s') \<Rightarrow> Inr s')"

text \<open>
  \<^verbatim>\<open>timer_cb\<close>; \<open>a\<close> is the address of the context that holds the timer
  (\<^verbatim>\<open>container_of\<close>).
\<close>

definition timer_cb :: "addr \<Rightarrow> loop_state \<Rightarrow> fault + loop_state" where
  "timer_cb a s =
     (case ctxs s a of
        None \<Rightarrow> Inl BadPointer
      | Some ctx \<Rightarrow>
          (case parent_handle ctx of
             None \<Rightarrow> Inr (s\<lparr>ctxs := (ctxs s)(a \<mapsto> uv_close ctx)\<rparr>)
           | Some h \<Rightarrow>
               (case handles s h of
                  None \<Rightarrow> Inl BadPointer
                | Some hnd \<Rightarrow>
                    if poll_ctx hnd \<noteq> Some a then Inl AssertFailed
                    else
                      let (rc, ctx') = uv_fs_stat (ctx\<lparr>start_time := uv_now s\<rparr>)
                      in if rc \<noteq> 0 then Inl Aborted
                         else Inr (s\<lparr>ctxs := (ctxs s)(a \<mapsto> ctx')\<rparr>))))"

text \<open>
  The part of \<^verbatim>\<open>poll_cb\<close> between the test for a detached context and the label
  \<^verbatim>\<open>out\<close>: the context attached to handle \<open>h\<close> takes note of the completed request and
  calls the user's callback where it has to.
\<close>

definition poll_cb_observe ::
  "platform \<Rightarrow> addr \<Rightarrow> uv_fs_t \<Rightarrow> poll_ctx \<Rightarrow> loop_state \<Rightarrow> poll_ctx \<times> loop_state" where
  "poll_cb_observe p h req ctx s =
     (if result req \<noteq> 0 then
        (if busy_polling ctx \<noteq> - errorno req then
           (ctx\<lparr>busy_polling := - errorno req\<rparr>,
            call_poll_cb (poll_cb_fn ctx) h (- 1) (statbuf ctx) zero_statbuf
              (snd (uv__set_artificial_error (UV_ERRNO (errorno req)) s)))
         else (ctx, s))
      else
        (ctx\<lparr>statbuf := ptr req, busy_polling := 1\<rparr>,
         if busy_polling ctx \<noteq> 0
            \<and> (busy_polling ctx <s 0 \<or> \<not> statbuf_eq p (statbuf ctx) (ptr req))
         then call_poll_cb (poll_cb_fn ctx) h 0 (statbuf ctx) (ptr req) s
         else s))"

text \<open>
  The part of \<^verbatim>\<open>poll_cb\<close> from the label \<^verbatim>\<open>out\<close>: the timer is armed again, the time
  the stat took taken off the interval. The arithmetic is that of \<^verbatim>\<open>uint64_t\<close>; the
  remainder by an interval of 0 does not return.
\<close>

definition poll_cb_out :: "poll_ctx \<Rightarrow> loop_state \<Rightarrow> fault + poll_ctx" where
  "poll_cb_out ctx s =
     (let ctx1 = uv_fs_req_cleanup ctx;
          ival = (ucast (interval ctx1) :: 64 word)
      in if ival = 0 then Inl DivByZero
         else
           let (rc, ctx2) =
                 uv_timer_start (ival - (uv_now s - start_time ctx1) mod ival) ctx1
           in if rc \<noteq> 0 then Inl Aborted else Inr ctx2)"

text \<open>
  \<^verbatim>\<open>poll_cb\<close>; \<open>a\<close> is the address of the context that holds the request
  (\<^verbatim>\<open>container_of\<close>).
\<close>

definition poll_cb :: "platform \<Rightarrow> addr \<Rightarrow> uv_fs_t \<Rightarrow> loop_state \<Rightarrow> fault + loop_state" where
  "poll_cb p a req s =
     (case ctxs s a of
        None \<Rightarrow> Inl BadPointer
      | Some ctx \<Rightarrow>
          (case parent_handle ctx of
             None \<Rightarrow> Inr (s\<lparr>ctxs := (ctxs s)(a \<mapsto> uv_fs_req_cleanup (uv_close ctx))\<rparr>)
           | Some h \<Rightarrow>
               let (ctx1, s1) = poll_cb_observe p h req ctx s
               in (case poll_cb_out ctx1 s1 of
                     Inl f \<Rightarrow> Inl f
                   | Inr ctx2 \<Rightarrow> Inr (s1\<lparr>ctxs := (ctxs s1)(a \<mapsto> ctx2)\<rparr>))))"

definition timer_close_cb :: "addr \<Rightarrow> loop_state \<Rightarrow> loop_state" where
  "timer_close_cb a s = s\<lparr>ctxs := (ctxs s)(a := None), freed := freed s @ [a]\<rparr>"

subsection \<open>The loop delivering events\<close>

text \<open>
  What happens to the poller, one event at a time: the user calls start, stop or close on a
  handle, the loop delivers the completion of a stat request, the firing of a timer or the
  notification that a timer is closed, or the clock of the loop moves on.
\<close>

datatype event =
    CallStart "addr option" addr nat string "32 word"
  | CallStop addr
  | CallClose addr
  | StatDone addr uv_fs_t
  | TimerFired addr
  | TimerClosed addr
  | Clock "64 word"

text \<open>
  Modelled from the spec: which events the loop can deliver. \<^verbatim>\<open>calloc\<close> returns memory
  that is not in use; a stat completion comes only for a request in flight and a timer
  fires only while armed (the two are delivered once each); the close notification comes
  only after \<^verbatim>\<open>uv_close\<close>; the clock is monotonic.
\<close>

definition deliverable :: "event \<Rightarrow> loop_state \<Rightarrow> bool" where
  "deliverable ev s =
     (case ev of
        CallStart mem h cb pth ival \<Rightarrow> (case mem of None \<Rightarrow> True | Some a \<Rightarrow> ctxs s a = None)
      | CallStop h \<Rightarrow> True
      | CallClose h \<Rightarrow> True
      | StatDone a req \<Rightarrow> (case ctxs s a of None \<Rightarrow> False | Some ctx \<Rightarrow> fs_req ctx)
      | TimerFired a \<Rightarrow>
          (case ctxs s a of
             None \<Rightarrow> False
           | Some ctx \<Rightarrow> (case timer_handle ctx of TimerArmed d \<Rightarrow> True | _ \<Rightarrow> False))
      | TimerClosed a \<Rightarrow>
          (case ctxs s a of None \<Rightarrow> False | Some ctx \<Rightarrow> timer_handle ctx = TimerClosing)
      | Clock t \<Rightarrow> time s \<le> t)"

text \<open>
  The function of \<^verbatim>\<open>fs-poll.c\<close> that an event runs. A timer is one-shot (the code arms
  it with a repeat of 0), so it is no longer armed when \<^verbatim>\<open>timer_cb\<close> runs.
\<close>

definition handle_event :: "platform \<Rightarrow> event \<Rightarrow> loop_state \<Rightarrow> fault + loop_state" where
  "handle_event p ev s =
     (case ev of
        CallStart mem h cb pth ival \<Rightarrow>
          (case uv_fs_poll_start mem h cb pth ival s of
             Inl f \<Rightarrow> Inl f | Inr (rc, s') \<Rightarrow> Inr s')
      | CallStop h \<Rightarrow>
          (case uv_fs_poll_stop h s of Inl f \<Rightarrow> Inl f | Inr (rc, s') \<Rightarrow> Inr s')
      | CallClose h \<Rightarrow> uv__fs_poll_close h s
      | StatDone a req \<Rightarrow> poll_cb p a req s
      | TimerFired a \<Rightarrow>
          (case ctxs s a of
             None \<Rightarrow> Inl BadPointer
           | Some ctx \<Rightarrow> timer_cb a (s\<lparr>ctxs := (ctxs s)(a \<mapsto> ctx\<lparr>timer_handle := TimerIdle\<rparr>)\<rparr>))
      | TimerClosed a \<Rightarrow> Inr (timer_close_cb a s)
      | Clock t \<Rightarrow> Inr (s\<lparr>time := t\<rparr>))"

text \<open>
  One step: \<open>None\<close> when the loop cannot deliver the event in this state, else what the
  function run by the event gives.
\<close>

definition step :: "platform \<Rightarrow> event \<Rightarrow> loop_state \<Rightarrow> (fault + loop_state) option" where
  "step p ev s = (if deliverable ev s then Some (handle_event p ev s) else None)"

text \<open>A sequence of events, stopped by the first fault.\<close>

fun run :: "platform \<Rightarrow> event list \<Rightarrow> loop_state \<Rightarrow> (fault + loop_state) option" where
  "run p [] s = Some (Inr s)"
| "run p (ev # evs) s =
     (case step p ev s of
        None \<Rightarrow> None
      | Some (Inl f) \<Rightarrow> Some (Inl f)
      | Some (Inr s') \<Rightarrow> run p evs s')"

subsection \<open>Notions used to state the properties\<close>

text \<open>
  The status the integer \<^verbatim>\<open>busy_polling\<close> stands for: 0 before the first completed stat,
  positive after a successful one, negative (minus the error code) after a failed one.
\<close>

datatype status = Unprimed | Primed | Failing c_int

definition status_of :: "poll_ctx \<Rightarrow> status" where
  "status_of ctx =
     (if busy_polling ctx = 0 then Unprimed
      else if busy_polling ctx <s 0 then Failing (- busy_polling ctx)
      else Primed)"

text \<open>How often the address \<open>a\<close> has been given to \<^verbatim>\<open>free\<close>.\<close>

definition frees :: "addr \<Rightarrow> loop_state \<Rightarrow> nat" where
  "frees a s = count_list (freed s) a"

text \<open>A stat completion that, if it reports a failure, carries an error code other than 0.\<close>

definition failure_has_code :: "event \<Rightarrow> bool" where
  "failure_has_code ev =
     (case ev of StatDone a req \<Rightarrow> result req = 0 \<or> errorno req \<noteq> 0 | _ \<Rightarrow> True)"

text \<open>
  The events of a run of poll cycles of the context at \<open>a\<close> in which every stat fails with
  the error code \<open>e\<close>: such completions, the timer of the context firing, the clock.
\<close>

definition failure_cycle_event :: "addr \<Rightarrow> c_int \<Rightarrow> event \<Rightarrow> bool" where
  "failure_cycle_event a e ev =
     (case ev of
        StatDone b req \<Rightarrow> b = a \<and> result req \<noteq> 0 \<and> errorno req = e
      | TimerFired b \<Rightarrow> b = a
      | Clock t \<Rightarrow> True
      | _ \<Rightarrow> False)"

definition is_stat_done :: "event \<Rightarrow> bool" where
  "is_stat_done ev = (case ev of StatDone b req \<Rightarrow> True | _ \<Rightarrow> False)"

definition is_timer_closed :: "event \<Rightarrow> bool" where
  "is_timer_closed ev = (case ev of TimerClosed b \<Rightarrow> True | _ \<Rightarrow> False)"

text \<open>The events the loop delivers to the context at \<open>a\<close>, and the clock.\<close>

definition about_ctx :: "addr \<Rightarrow> event \<Rightarrow> bool" where
  "about_ctx a ev =
     (case ev of
        StatDone b req \<Rightarrow> b = a
      | TimerFired b \<Rightarrow> b = a
      | TimerClosed b \<Rightarrow> b = a
      | Clock t \<Rightarrow> True
      | _ \<Rightarrow> False)"

text \<open>
  The call by which a context attached to \<open>h\<close> reports a failed stat: status -1, its
  stored snapshot, the zero snapshot.
\<close>

definition error_call :: "poll_ctx \<Rightarrow> addr \<Rightarrow> cb_call" where
  "error_call ctx h =
     \<lparr>cb_fn = poll_cb_fn ctx, cb_handle = h, cb_status = - 1,
      cb_prev = statbuf ctx, cb_curr = zero_statbuf\<rparr>"

text \<open>
  The two stages of a context that was detached while its stat request was in flight:
  the request still in flight, then the timer being closed.
\<close>

definition detached_stat_pending :: "addr \<Rightarrow> loop_state \<Rightarrow> bool" where
  "detached_stat_pending a s =
     (case ctxs s a of
        None \<Rightarrow> False
      | Some ctx \<Rightarrow> parent_handle ctx = None \<and> fs_req ctx \<and> timer_handle ctx = TimerIdle)"

definition detached_closing :: "addr \<Rightarrow> loop_state \<Rightarrow> bool" where
  "detached_closing a s =
     (case ctxs s a of
        None \<Rightarrow> False
      | Some ctx \<Rightarrow> parent_handle ctx = None \<and> \<not> fs_req ctx \<and> timer_handle ctx = TimerClosing)"

text \<open>What a run has logged and the status it has left at an address, if it went through.\<close>

definition calls_of :: "(fault + loop_state) option \<Rightarrow> cb_call list option" where
  "calls_of r = (case r of Some (Inr s) \<Rightarrow> Some (cb_calls s) | _ \<Rightarrow> None)"

definition status_at :: "addr \<Rightarrow> (fault + loop_state) option \<Rightarrow> status option" where
  "status_at a r =
     (case r of
        Some (Inr s) \<Rightarrow> (case ctxs s a of None \<Rightarrow> None | Some ctx \<Rightarrow> Some (status_of ctx))
      | _ \<Rightarrow> None)"

text \<open>
  The events that begin a poll cycle of the context at \<open>a\<close>: the start that creates it
  and its timer firing. Both issue a stat request.
\<close>

definition begins_cycle :: "addr \<Rightarrow> event \<Rightarrow> bool" where
  "begins_cycle a ev =
     (case ev of
        CallStart mem h cb pth ival \<Rightarrow> mem = Some a
      | TimerFired b \<Rightarrow> b = a
      | _ \<Rightarrow> False)"

text \<open>
  The events that neither begin a poll cycle of the context at \<open>a\<close> nor are delivered
  to it: the clock, calls on handles, what is delivered to other contexts.
\<close>

definition within_cycle :: "addr \<Rightarrow> event \<Rightarrow> bool" where
  "within_cycle a ev =
     (case ev of
        CallStart mem h cb pth ival \<Rightarrow> mem \<noteq> Some a
      | StatDone b req \<Rightarrow> b \<noteq> a
      | TimerFired b \<Rightarrow> b \<noteq> a
      | TimerClosed b \<Rightarrow> b \<noteq> a
      | _ \<Rightarrow> True)"

text \<open>
  The states in which an event begins a poll cycle of the context at \<open>a\<close>: a start on an
  inactive handle for which \<^verbatim>\<open>calloc\<close> returns the unused address \<open>a\<close>, or the armed
  timer of the context firing while the context is attached to a handle that holds it
  (and has an interval other than 0, as every context that start creates has).
\<close>

definition cycle_can_begin :: "addr \<Rightarrow> event \<Rightarrow> loop_state \<Rightarrow> bool" where
  "cycle_can_begin a ev s =
     (case ev of
        CallStart mem h cb pth ival \<Rightarrow>
          mem = Some a \<and> ctxs s a = None
          \<and> (case handles s h of None \<Rightarrow> False | Some hnd \<Rightarrow> \<not> active hnd)
      | TimerFired b \<Rightarrow>
          b = a
          \<and> (case ctxs s a of
                None \<Rightarrow> False
              | Some ctx \<Rightarrow>
                  (case timer_handle ctx of TimerArmed d \<Rightarrow> True | _ \<Rightarrow> False)
                  \<and> interval ctx \<noteq> 0
                  \<and> (case parent_handle ctx of
                        None \<Rightarrow> False
                      | Some h \<Rightarrow>
                          (case handles s h of
                             None \<Rightarrow> False
                           | Some hnd \<Rightarrow> poll_ctx hnd = Some a)))
      | _ \<Rightarrow> False)"

subsection \<open>Example data\<close>

definition snapshot :: "64 word \<Rightarrow> uv_statbuf_t" where
  "snapshot n = zero_statbuf\<lparr>st_size := n\<rparr>"

definition stat_ok :: "uv_statbuf_t \<Rightarrow> uv_fs_t" where
  "stat_ok b = \<lparr>result = 0, errorno = 0, ptr = b\<rparr>"

definition stat_failed :: "c_int \<Rightarrow> uv_fs_t" where
  "stat_failed e = \<lparr>result = - 1, errorno = e, ptr = zero_statbuf\<rparr>"

text \<open>A loop at time 1000 with one handle, at address 0, that is not active.\<close>

definition ex_init :: loop_state where
  "ex_init = \<lparr> time = 1000, last_err = UV_OK,
     handles = [0 \<mapsto> \<lparr>active = False, poll_ctx = None\<rparr>],
     ctxs = Map.empty, cb_calls = [], freed = [] \<rparr>"

text \<open>
  A context attached to the handle at 0, primed with a snapshot of size 10, polling
  every 100 ms, whose stat request of the cycle begun at time 1000 is in flight.
\<close>

definition ex_ctx :: poll_ctx where
  "ex_ctx = \<lparr> parent_handle = Some 0, busy_polling = 1, interval = 100, start_time = 1000,
     poll_cb_fn = 7, timer_handle = TimerIdle, fs_req = True, statbuf = snapshot 10,
     path = ''/tmp/f'' \<rparr>"

text \<open>The loop 30 ms later, with the handle active and that context at address 1.\<close>

definition ex_polling :: loop_state where
  "ex_polling = \<lparr> time = 1030, last_err = UV_OK,
     handles = [0 \<mapsto> \<lparr>active = True, poll_ctx = Some 1\<rparr>],
     ctxs = [1 \<mapsto> ex_ctx], cb_calls = [], freed = [] \<rparr>"

text \<open>
  The loop at time 1110 with that context waiting for its timer, which was armed with
  70 ms at time 1030 and fires late.
\<close>

definition ex_waiting :: loop_state where
  "ex_waiting = \<lparr> time = 1110, last_err = UV_OK,
     handles = [0 \<mapsto> \<lparr>active = True, poll_ctx = Some 1\<rparr>],
     ctxs = [1 \<mapsto> ex_ctx\<lparr>timer_handle := TimerArmed 70, fs_req := False\<rparr>],
     cb_calls = [], freed = [] \<rparr>"

section \<open>Properties\<close>

lemmas fs_poll_defs =
  uv_fs_poll_start_def uv_fs_poll_stop_def uv__fs_poll_close_def timer_cb_def poll_cb_def
  poll_cb_observe_def poll_cb_out_def timer_close_cb_def
  uv__is_active_def uv__handle_start_def uv__handle_stop_def uv_now_def uv_timer_init_def
  uv_timer_start_def uv_timer_stop_def uv_close_def uv_fs_stat_def uv_fs_req_cleanup_def
  uv__set_artificial_error_def call_poll_cb_def calloc_ctx_def

lemmas event_defs = step_def handle_event_def deliverable_def

lemmas example_defs =
  ex_init_def ex_ctx_def ex_polling_def ex_waiting_def snapshot_def stat_ok_def
  stat_failed_def zero_statbuf_def

lemmas eval_defs = event_defs fs_poll_defs example_defs Let_def word_sless_alt

subsection \<open>The comparator\<close>

text \<open>
  C3. On Linux and on OS X two snapshots compare equal exactly when size, mode, uid, gid,
  inode, device, the whole seconds of the modification and change times and their
  nanosecond parts are all identical. On Windows they compare equal exactly when the
  whole seconds of the modification time, the size and the mode are identical; uid, gid,
  inode, device and the change time are not looked at there.
\<close>

theorem statbuf_eq_by_platform:
  "statbuf_eq Linux a b = same_fields a b
   \<and> statbuf_eq Apple a b = same_fields a b
   \<and> statbuf_eq Win32 a b =
       (st_mtime a = st_mtime b \<and> st_size a = st_size b \<and> st_mode a = st_mode b)"
  by (auto simp: statbuf_eq_def same_fields_def)

text \<open>
  On Windows two snapshots that differ in the uid compare equal: there the comparator
  does not look at every field of the snapshot.
\<close>

theorem statbuf_eq_win32_counterexample:
  "statbuf_eq Win32 zero_statbuf (zero_statbuf\<lparr>st_uid := 1\<rparr>)
   \<and> st_uid zero_statbuf \<noteq> st_uid (zero_statbuf\<lparr>st_uid := 1\<rparr>)"
  by (simp add: statbuf_eq_def zero_statbuf_def)

text \<open>Agreeing in the ten fields is being the same snapshot.\<close>

lemma same_fields_eq: "same_fields a b = (a = b)"
  by (cases a, cases b) (auto simp: same_fields_def)

text \<open>On every platform the comparator finds a snapshot equal to itself.\<close>

lemma same_fields_statbuf_eq: "same_fields a b \<Longrightarrow> statbuf_eq p a b"
  by (simp add: same_fields_def statbuf_eq_def)

subsection \<open>Word arithmetic of the interval\<close>

lemma unat_ucast_32_64: "unat (ucast (w :: 32 word) :: 64 word) = unat w"
proof -
  have "unat w < 2 ^ 32"
    using unsigned_less [of w] by simp
  then have "unat w < 2 ^ 64"
    by simp
  then show ?thesis
    by (simp add: unsigned_ucast_eq take_bit_nat_eq_self_iff)
qed

lemma ucast_32_64_eq_0: "(ucast (w :: 32 word) :: 64 word) = 0 \<longleftrightarrow> w = 0"
proof -
  have "(ucast w :: 64 word) = 0 \<longleftrightarrow> unat (ucast w :: 64 word) = 0"
    by (simp add: unat_eq_0)
  also have "\<dots> \<longleftrightarrow> w = 0"
    by (simp add: unat_ucast_32_64 unat_eq_0)
  finally show ?thesis .
qed

lemma delay_unat:
  fixes ival :: "32 word" and now start :: "64 word"
  assumes "ival \<noteq> 0" and "start \<le> now"
  shows "unat (ucast ival - (now - start) mod ucast ival :: 64 word)
         = unat ival - (unat now - unat start) mod unat ival"
proof -
  let ?i = "ucast ival :: 64 word"
  have i0: "?i \<noteq> 0" using assms(1) by (simp add: ucast_32_64_eq_0)
  have "(now - start) mod ?i < ?i"
    using i0 by (simp add: word_mod_less_divisor word_neq_0_conv)
  then have "(now - start) mod ?i \<le> ?i" by simp
  then have "unat (?i - (now - start) mod ?i) = unat ?i - unat ((now - start) mod ?i)"
    by (rule unat_sub)
  also have "unat ((now - start) mod ?i) = unat (now - start) mod unat ?i"
    by (rule unat_mod)
  also have "unat (now - start) = unat now - unat start"
    using assms(2) by (rule unat_sub)
  finally show ?thesis by (simp add: unat_ucast_32_64)
qed

subsection \<open>One stat completion\<close>

lemma status_of_Unprimed: "status_of ctx = Unprimed \<longleftrightarrow> busy_polling ctx = 0"
  by (simp add: status_of_def)

lemma status_of_Primed:
  "status_of ctx = Primed \<longleftrightarrow> busy_polling ctx \<noteq> 0 \<and> \<not> busy_polling ctx <s 0"
  by (simp add: status_of_def)

text \<open>
  C4. A successful stat completion on a context whose status is still Unprimed calls no
  user callback. If the context is attached, nothing changes but the context: it takes
  the snapshot as its baseline, its status becomes Primed (\<^verbatim>\<open>busy_polling\<close> is 1), the
  request is no longer in flight and the timer is armed.
\<close>

theorem first_success_primes:
  assumes "ctxs s a = Some ctx" and "status_of ctx = Unprimed"
    and "result req = 0" and "interval ctx \<noteq> 0"
  shows "\<exists>s'. poll_cb p a req s = Inr s' \<and> cb_calls s' = cb_calls s
           \<and> (\<forall>h. parent_handle ctx = Some h \<longrightarrow>
                (\<exists>d. s' = s\<lparr>ctxs := (ctxs s)(a \<mapsto> ctx\<lparr>statbuf := ptr req, busy_polling := 1,
                        fs_req := False, timer_handle := TimerArmed d\<rparr>)\<rparr>))"
  using assms
  by (cases "parent_handle ctx")
    (auto simp add: poll_cb_def poll_cb_observe_def poll_cb_out_def uv_fs_req_cleanup_def
      uv_timer_start_def Let_def ucast_32_64_eq_0 status_of_Unprimed)

theorem first_success_primes_witness:
  "\<exists>d. poll_cb Linux 1 (stat_ok (snapshot 10))
         (ex_polling\<lparr>ctxs := [1 \<mapsto> ex_ctx\<lparr>busy_polling := 0, statbuf := zero_statbuf\<rparr>]\<rparr>)
       = Inr (ex_polling\<lparr>ctxs := [1 \<mapsto> ex_ctx\<lparr>busy_polling := 1, statbuf := snapshot 10,
                fs_req := False, timer_handle := TimerArmed d\<rparr>]\<rparr>)"
  using first_success_primes
    [of "ex_polling\<lparr>ctxs := [1 \<mapsto> ex_ctx\<lparr>busy_polling := 0, statbuf := zero_statbuf\<rparr>]\<rparr>"
        1 "ex_ctx\<lparr>busy_polling := 0, statbuf := zero_statbuf\<rparr>" "stat_ok (snapshot 10)" Linux]
  by (auto simp add: ex_ctx_def ex_polling_def stat_ok_def status_of_def)

text \<open>
  C6. On an attached context whose status is Primed, a successful stat completion whose
  snapshot \<^verbatim>\<open>statbuf_eq\<close> finds equal to the stored one calls no user callback.
\<close>

theorem unchanged_snapshot_silent:
  assumes "ctxs s a = Some ctx" and "parent_handle ctx = Some h"
    and "status_of ctx = Primed" and "result req = 0" and "interval ctx \<noteq> 0"
    and "statbuf_eq p (statbuf ctx) (ptr req)"
  shows "\<exists>s'. poll_cb p a req s = Inr s' \<and> cb_calls s' = cb_calls s"
  using assms
  by (auto simp add: poll_cb_def poll_cb_observe_def poll_cb_out_def uv_fs_req_cleanup_def
      uv_timer_start_def Let_def ucast_32_64_eq_0 status_of_Primed)

theorem unchanged_snapshot_silent_witness:
  "\<exists>s'. poll_cb Linux 1 (stat_ok (snapshot 10)) ex_polling = Inr s' \<and> cb_calls s' = []"
  using unchanged_snapshot_silent [of ex_polling 1 ex_ctx 0 "stat_ok (snapshot 10)" Linux]
  by (simp add: example_defs statbuf_eq_def status_of_def word_sless_alt)

text \<open>
  C10. When the first stat after start fails with an error code other than 0, the user's
  callback is called once, with status -1 and with the zero snapshot both as the previous
  snapshot (the context comes zeroed from \<^verbatim>\<open>calloc\<close>) and as the current one (the
  sentinel \<^verbatim>\<open>zero_statbuf\<close>). The clock may have moved between the two.
\<close>

theorem first_failure_zero_snapshots:
  assumes "handles s h = Some hnd" and "\<not> active hnd"
    and "result req \<noteq> 0" and "errorno req \<noteq> 0"
  shows "\<exists>s1 s2. uv_fs_poll_start (Some a) h cb pth ival s = Inr (0, s1)
           \<and> poll_cb p a req (s1\<lparr>time := t\<rparr>) = Inr s2
           \<and> cb_calls s2 = cb_calls s @
               [\<lparr>cb_fn = cb, cb_handle = h, cb_status = - 1,
                 cb_prev = zero_statbuf, cb_curr = zero_statbuf\<rparr>]"
  using assms
  by (auto simp add: uv_fs_poll_start_def uv__is_active_def calloc_ctx_def uv_timer_init_def
      uv_fs_stat_def uv_now_def uv__handle_start_def
      poll_cb_def poll_cb_observe_def poll_cb_out_def uv_fs_req_cleanup_def
      uv_timer_start_def Let_def call_poll_cb_def uv__set_artificial_error_def
      ucast_32_64_eq_0)

theorem first_failure_zero_snapshots_witness:
  "\<exists>s1 s2. uv_fs_poll_start (Some 1) 0 7 ''/tmp/f'' 100 ex_init = Inr (0, s1)
           \<and> poll_cb Linux 1 (stat_failed 2) (s1\<lparr>time := 1030\<rparr>) = Inr s2
           \<and> cb_calls s2 =
               [\<lparr>cb_fn = 7, cb_handle = 0, cb_status = - 1,
                 cb_prev = zero_statbuf, cb_curr = zero_statbuf\<rparr>]"
  using first_failure_zero_snapshots
    [of ex_init 0 "\<lparr>active = False, poll_ctx = None\<rparr>" "stat_failed 2" 1 7 "''/tmp/f''" 100
        Linux 1030]
  by (simp add: ex_init_def stat_failed_def)

subsection \<open>Start and stop\<close>

text \<open>
  C7. Start on a handle that is active returns 0 and leaves the whole state as it is: the
  handle, its context, the requests in flight. Stop on a handle that is not active
  returns 0 and leaves the whole state as it is.
\<close>

theorem start_stop_idempotent:
  assumes "handles s h = Some hnd"
  shows "(active hnd \<longrightarrow> uv_fs_poll_start mem h cb pth ival s = Inr (0, s))
       \<and> (\<not> active hnd \<longrightarrow> uv_fs_poll_stop h s = Inr (0, s))"
  using assms by (simp add: uv_fs_poll_start_def uv_fs_poll_stop_def uv__is_active_def)

theorem start_stop_idempotent_witness:
  "uv_fs_poll_start (Some 2) 0 8 ''/tmp/g'' 50 ex_polling = Inr (0, ex_polling)
   \<and> uv_fs_poll_stop 0 ex_init = Inr (0, ex_init)"
  using start_stop_idempotent [of ex_polling 0 "\<lparr>active = True, poll_ctx = Some 1\<rparr>"
      "Some 2" 8 "''/tmp/g''" 50]
    start_stop_idempotent [of ex_init 0 "\<lparr>active = False, poll_ctx = None\<rparr>"]
  by (simp add: ex_polling_def ex_init_def)

subsection \<open>Runs of events\<close>

lemma run_append:
  "run p (es @ es') s =
     (case run p es s of
        None \<Rightarrow> None
      | Some (Inl f) \<Rightarrow> Some (Inl f)
      | Some (Inr s') \<Rightarrow> run p es' s')"
  by (induction es arbitrary: s) (auto split: option.splits sum.splits)

lemma step_frees_mono:
  assumes "step p ev s = Some (Inr s')"
  shows "frees a s \<le> frees a s'"
  using assms
  by (cases ev)
    (auto simp: step_def handle_event_def deliverable_def frees_def fs_poll_defs Let_def
      split: if_splits option.splits sum.splits prod.splits uv_timer_t.splits)

lemma run_frees_mono:
  assumes "run p es s = Some (Inr s')"
  shows "frees a s \<le> frees a s'"
  using assms
proof (induction es arbitrary: s)
  case Nil
  then show ?case by simp
next
  case (Cons ev es)
  from Cons.prems obtain s1 where st: "step p ev s = Some (Inr s1)"
    and rest: "run p es s1 = Some (Inr s')"
    by (auto split: option.splits sum.splits)
  from step_frees_mono [OF st] Cons.IH [OF rest] show ?case by (rule order_trans)
qed

text \<open>
  A step leaves a context that it does not free at its address, with the interval it had,
  and with a status other than Unprimed if it had one (given that a failed stat carries an
  error code).
\<close>

lemma step_ctx_kept:
  assumes "step p ev s = Some (Inr s')" and "ctxs s a = Some ctx" and "frees a s' = frees a s"
  shows "\<exists>ctx'. ctxs s' a = Some ctx' \<and> interval ctx' = interval ctx
           \<and> (failure_has_code ev \<longrightarrow> busy_polling ctx \<noteq> 0 \<longrightarrow> busy_polling ctx' \<noteq> 0)"
  using assms
  by (cases ev)
    (auto simp: step_def handle_event_def deliverable_def frees_def fs_poll_defs Let_def
      failure_has_code_def
      split: if_splits option.splits sum.splits prod.splits uv_timer_t.splits)

lemma run_ctx_kept:
  assumes "run p es s = Some (Inr s')" and "ctxs s a = Some ctx" and "frees a s' = frees a s"
  shows "\<exists>ctx'. ctxs s' a = Some ctx' \<and> interval ctx' = interval ctx
           \<and> (list_all failure_has_code es \<longrightarrow> busy_polling ctx \<noteq> 0 \<longrightarrow> busy_polling ctx' \<noteq> 0)"
  using assms
proof (induction es arbitrary: s ctx)
  case Nil
  then show ?case by simp
next
  case (Cons ev es)
  from Cons.prems(1) obtain s1 where st: "step p ev s = Some (Inr s1)"
    and rest: "run p es s1 = Some (Inr s')"
    by (auto split: option.splits sum.splits)
  from step_frees_mono [OF st, of a] run_frees_mono [OF rest, of a] Cons.prems(3)
  have f1: "frees a s1 = frees a s" and f2: "frees a s' = frees a s1" by simp_all
  from step_ctx_kept [OF st Cons.prems(2) f1]
  obtain ctx1 where c1: "ctxs s1 a = Some ctx1" "interval ctx1 = interval ctx"
    "failure_has_code ev \<longrightarrow> busy_polling ctx \<noteq> 0 \<longrightarrow> busy_polling ctx1 \<noteq> 0"
    by blast
  from Cons.IH [OF rest c1(1) f2] c1 show ?case by auto
qed

subsection \<open>Stat failures\<close>

lemma step_failure_cycle:
  assumes "step p ev s = Some (Inr s')" and "failure_cycle_event a e ev"
    and "ctxs s a = Some ctx" and "parent_handle ctx = Some h"
  shows "\<exists>ctx'. ctxs s' a = Some ctx' \<and> parent_handle ctx' = Some h
           \<and> statbuf ctx' = statbuf ctx \<and> poll_cb_fn ctx' = poll_cb_fn ctx
           \<and> (if is_stat_done ev
                then busy_polling ctx' = - e
                  \<and> cb_calls s' = (if busy_polling ctx = - e then cb_calls s
                                    else cb_calls s @ [error_call ctx h])
                else busy_polling ctx' = busy_polling ctx \<and> cb_calls s' = cb_calls s)"
  using assms
  by (cases ev)
    (auto simp: step_def handle_event_def deliverable_def fs_poll_defs Let_def
      failure_cycle_event_def is_stat_done_def error_call_def
      split: if_splits option.splits sum.splits prod.splits uv_timer_t.splits)

lemma run_repeated_failure:
  assumes "list_all (failure_cycle_event a e) es" and "run p es s = Some (Inr s')"
    and "ctxs s a = Some ctx" and "parent_handle ctx = Some h" and "busy_polling ctx = - e"
  shows "cb_calls s' = cb_calls s
         \<and> (\<exists>ctx'. ctxs s' a = Some ctx' \<and> parent_handle ctx' = Some h
               \<and> statbuf ctx' = statbuf ctx \<and> poll_cb_fn ctx' = poll_cb_fn ctx
               \<and> busy_polling ctx' = - e)"
  using assms
proof (induction es arbitrary: s ctx)
  case Nil
  then show ?case by simp
next
  case (Cons ev es)
  from Cons.prems(2) obtain s1 where st: "step p ev s = Some (Inr s1)"
    and rest: "run p es s1 = Some (Inr s')"
    by (auto split: option.splits sum.splits)
  from Cons.prems(1) have ev: "failure_cycle_event a e ev"
    and es: "list_all (failure_cycle_event a e) es" by simp_all
  from step_failure_cycle [OF st ev Cons.prems(3,4)] Cons.prems(5)
  obtain ctx1 where c1: "ctxs s1 a = Some ctx1" "parent_handle ctx1 = Some h"
    "statbuf ctx1 = statbuf ctx" "poll_cb_fn ctx1 = poll_cb_fn ctx"
    "busy_polling ctx1 = - e" "cb_calls s1 = cb_calls s"
    by (auto split: if_splits)
  from Cons.IH [OF es rest c1(1,2,5)] c1 show ?case by simp
qed

lemma run_first_failure:
  assumes "list_all (failure_cycle_event a e) es" and "run p es s = Some (Inr s')"
    and "ctxs s a = Some ctx" and "parent_handle ctx = Some h" and "busy_polling ctx \<noteq> - e"
  shows "\<exists>ctx'. ctxs s' a = Some ctx' \<and> parent_handle ctx' = Some h
           \<and> statbuf ctx' = statbuf ctx \<and> poll_cb_fn ctx' = poll_cb_fn ctx
           \<and> (if list_ex is_stat_done es
                then busy_polling ctx' = - e \<and> cb_calls s' = cb_calls s @ [error_call ctx h]
                else busy_polling ctx' = busy_polling ctx \<and> cb_calls s' = cb_calls s)"
  using assms
proof (induction es arbitrary: s ctx)
  case Nil
  then show ?case by simp
next
  case (Cons ev es)
  from Cons.prems(2) obtain s1 where st: "step p ev s = Some (Inr s1)"
    and rest: "run p es s1 = Some (Inr s')"
    by (auto split: option.splits sum.splits)
  from Cons.prems(1) have ev: "failure_cycle_event a e ev"
    and es: "list_all (failure_cycle_event a e) es" by simp_all
  from step_failure_cycle [OF st ev Cons.prems(3,4)]
  obtain ctx1 where c1: "ctxs s1 a = Some ctx1" "parent_handle ctx1 = Some h"
    "statbuf ctx1 = statbuf ctx" "poll_cb_fn ctx1 = poll_cb_fn ctx"
    and c2: "if is_stat_done ev
                then busy_polling ctx1 = - e
                  \<and> cb_calls s1 = (if busy_polling ctx = - e then cb_calls s
                                    else cb_calls s @ [error_call ctx h])
                else busy_polling ctx1 = busy_polling ctx \<and> cb_calls s1 = cb_calls s"
    by blast
  have same_call: "error_call ctx1 h = error_call ctx h"
    using c1 by (simp add: error_call_def)
  show ?case
  proof (cases "is_stat_done ev")
    case True
    with c2 Cons.prems(5) have b: "busy_polling ctx1 = - e"
      and c: "cb_calls s1 = cb_calls s @ [error_call ctx h]" by simp_all
    from run_repeated_failure [OF es rest c1(1,2) b] c1 c True show ?thesis by auto
  next
    case False
    with c2 Cons.prems(5) have b: "busy_polling ctx1 \<noteq> - e" "busy_polling ctx1 = busy_polling ctx"
      and c: "cb_calls s1 = cb_calls s" by simp_all
    from Cons.IH [OF es rest c1(1,2) b(1)] c1 b c False same_call show ?thesis by auto
  qed
qed

text \<open>
  For a positive error code \<open>e\<close>, \<^verbatim>\<open>busy_polling\<close> is \<open>- e\<close> exactly when the status is
  Failing with that code.
\<close>

lemma sint_minus_pos:
  fixes e :: c_int
  assumes "0 <s e"
  shows "sint (- e) = - sint e"
proof -
  from assms have pos: "0 < sint e" by (simp add: word_sless_alt)
  have lt: "sint e < 2 ^ 31" using sint_lt [of e] by simp
  have "sint (- e) = signed_take_bit 31 (- sint e)"
    by (simp add: sint_word_ariths)
  also have "\<dots> = - sint e"
    using pos lt by (intro signed_take_bit_int_eq_self) simp_all
  finally show ?thesis .
qed

lemma positive_code_status:
  fixes e :: c_int
  assumes "0 <s e"
  shows "busy_polling ctx = - e \<longleftrightarrow> status_of ctx = Failing e"
proof
  assume b: "busy_polling ctx = - e"
  from assms have "0 < sint e" by (simp add: word_sless_alt)
  with sint_minus_pos [OF assms] have "sint (- e) < 0" by simp
  then have "- e <s 0" "- e \<noteq> 0" by (auto simp: word_sless_alt)
  with b show "status_of ctx = Failing e" by (simp add: status_of_def)
next
  assume "status_of ctx = Failing e"
  then have "- busy_polling ctx = e" by (simp add: status_of_def split: if_splits)
  then show "busy_polling ctx = - e" by auto
qed

text \<open>
  A run of poll cycles whose stats all fail with the code \<open>e\<close>, on an attached context
  whose \<^verbatim>\<open>busy_polling\<close> is not \<open>- e\<close> at first, reports the failure exactly once.
\<close>

lemma run_failures_reported_once:
  assumes "ctxs s a = Some ctx" and "parent_handle ctx = Some h"
    and "busy_polling ctx \<noteq> - e"
    and "list_all (failure_cycle_event a e) es" and "list_ex is_stat_done es"
    and "run p es s = Some (Inr s')"
  shows "cb_calls s' = cb_calls s @ [error_call ctx h]
         \<and> (\<forall>req s''. result req \<noteq> 0 \<and> errorno req \<noteq> e
               \<and> run p (es @ [StatDone a req]) s = Some (Inr s'')
              \<longrightarrow> cb_calls s'' = cb_calls s @ [error_call ctx h, error_call ctx h])"
proof -
  from run_first_failure [OF assms(4,6,1,2,3)] assms(5)
  obtain ctx' where c: "ctxs s' a = Some ctx'" "parent_handle ctx' = Some h"
    "statbuf ctx' = statbuf ctx" "poll_cb_fn ctx' = poll_cb_fn ctx"
    "busy_polling ctx' = - e" "cb_calls s' = cb_calls s @ [error_call ctx h]"
    by auto
  have same_call: "error_call ctx' h = error_call ctx h"
    using c by (simp add: error_call_def)
  have "cb_calls s'' = cb_calls s @ [error_call ctx h, error_call ctx h]"
    if "result req \<noteq> 0" "errorno req \<noteq> e"
      "run p (es @ [StatDone a req]) s = Some (Inr s'')"
    for req s''
  proof -
    from that(3) assms(6) have st: "step p (StatDone a req) s' = Some (Inr s'')"
      by (simp add: run_append split: option.splits sum.splits)
    have ev: "failure_cycle_event a (errorno req) (StatDone a req)"
      using that(1) by (simp add: failure_cycle_event_def)
    from step_failure_cycle [OF st ev c(1,2)] c(5) that(2) same_call c(6)
    show ?thesis by (auto simp: is_stat_done_def)
  qed
  with c(6) show ?thesis by blast
qed

text \<open>
  In particular for a positive error code \<open>e\<close> and an attached context whose status is
  not Failing with that code: the failure is reported exactly once, with status -1, the
  stored snapshot as the previous one and the zero snapshot as the current one, and a
  failure with another code that follows is reported again.
\<close>

lemma positive_code_reported_once:
  assumes "ctxs s a = Some ctx" and "parent_handle ctx = Some h"
    and "0 <s e" and "status_of ctx \<noteq> Failing e"
    and "list_all (failure_cycle_event a e) es" and "list_ex is_stat_done es"
    and "run p es s = Some (Inr s')"
  shows "cb_calls s' = cb_calls s @ [error_call ctx h]
         \<and> (\<forall>req s''. result req \<noteq> 0 \<and> errorno req \<noteq> e
               \<and> run p (es @ [StatDone a req]) s = Some (Inr s'')
              \<longrightarrow> cb_calls s'' = cb_calls s @ [error_call ctx h, error_call ctx h])"
proof -
  from assms(3,4) have "busy_polling ctx \<noteq> - e"
    by (simp add: positive_code_status)
  from run_failures_reported_once [OF assms(1,2) this assms(5,6,7)] show ?thesis .
qed

lemma positive_code_reported_once_example:
  "calls_of (run Linux
      [StatDone 1 (stat_failed 2), TimerFired 1, Clock 1130, StatDone 1 (stat_failed 2),
       TimerFired 1] ex_polling) = Some [error_call ex_ctx 0]
   \<and> calls_of (run Linux
      ([StatDone 1 (stat_failed 2), TimerFired 1, Clock 1130, StatDone 1 (stat_failed 2),
        TimerFired 1] @ [StatDone 1 (stat_failed 13)]) ex_polling)
     = Some [error_call ex_ctx 0, error_call ex_ctx 0]"
proof -
  let ?es = "[StatDone 1 (stat_failed 2), TimerFired 1, Clock 1130,
              StatDone 1 (stat_failed 2), TimerFired 1]"
  obtain s' where r1: "run Linux ?es ex_polling = Some (Inr s')"
    by (simp add: eval_defs)
  obtain s'' where r2: "run Linux (?es @ [StatDone 1 (stat_failed 13)]) ex_polling = Some (Inr s'')"
    by (simp add: eval_defs)
  have c: "ctxs ex_polling 1 = Some ex_ctx" by (simp add: ex_polling_def)
  have h: "parent_handle ex_ctx = Some 0" by (simp add: ex_ctx_def)
  have e: "(0 :: c_int) <s 2" by (simp add: word_sless_alt)
  have b: "status_of ex_ctx \<noteq> Failing 2" by (simp add: status_of_def ex_ctx_def)
  have l: "list_all (failure_cycle_event 1 2) ?es"
    by (simp add: failure_cycle_event_def stat_failed_def)
  have x: "list_ex is_stat_done ?es" by (simp add: is_stat_done_def)
  note once = positive_code_reported_once [OF c h e b l x r1]
  have one: "cb_calls s' = [error_call ex_ctx 0]"
    using once [THEN conjunct1] by (simp add: ex_polling_def)
  have q: "result (stat_failed 13) \<noteq> 0" "errorno (stat_failed 13) \<noteq> 2"
    by (simp_all add: stat_failed_def)
  have two: "cb_calls s'' = [error_call ex_ctx 0, error_call ex_ctx 0]"
    using once [THEN conjunct2, rule_format, OF conjI [OF q(1) conjI [OF q(2) r2]]]
    by (simp add: ex_polling_def)
  show ?thesis
    unfolding r1 r2 by (simp add: calls_of_def one two)
qed

text \<open>
  C5. Consecutive stat failures with the same error code are to call the user's callback
  exactly once, on the first of them. The code misses that for the error code -1 on a
  Primed context: a context is started and primed by a successful stat, and the next two
  stats fail with the code -1. Minus that code is 1, the value of \<^verbatim>\<open>busy_polling\<close> that
  stands for Primed, so the test \<^verbatim>\<open>busy_polling != -req->errorno\<close> takes both failures
  as reported already and the callback is not called at all. The same run with the code
  2 calls it once.
\<close>

theorem unknown_error_not_reported:
  "calls_of (run Linux
      [CallStart (Some 1) 0 7 ''/tmp/f'' 100, StatDone 1 (stat_ok (snapshot 10)),
       TimerFired 1, StatDone 1 (stat_failed (- 1)),
       TimerFired 1, StatDone 1 (stat_failed (- 1))] ex_init) = Some []
   \<and> calls_of (run Linux
      [CallStart (Some 1) 0 7 ''/tmp/f'' 100, StatDone 1 (stat_ok (snapshot 10)),
       TimerFired 1, StatDone 1 (stat_failed 2),
       TimerFired 1, StatDone 1 (stat_failed 2)] ex_init)
     = Some [\<lparr>cb_fn = 7, cb_handle = 0, cb_status = - 1,
               cb_prev = snapshot 10, cb_curr = zero_statbuf\<rparr>]"
  by (simp add: calls_of_def eval_defs statbuf_eq_def)

subsection \<open>What holds for the lifetime of a context\<close>

text \<open>
  C8. The status is Unprimed, Primed or Failing, and a context that has left Unprimed
  never returns to it: in every run of events, a context that is not freed meanwhile and
  whose status is not Unprimed is still there at the end with a status that is Primed or
  Failing. A stat completion is a result or an error: where it reports a failure it
  carries an error code other than 0, the code of no error.
\<close>

theorem status_never_back_to_unprimed:
  assumes "run p es s = Some (Inr s')" and "ctxs s a = Some ctx"
    and "frees a s' = frees a s" and "list_all failure_has_code es"
    and "status_of ctx \<noteq> Unprimed"
  shows "\<exists>ctx'. ctxs s' a = Some ctx' \<and> status_of ctx' \<noteq> Unprimed"
  using run_ctx_kept [OF assms(1,2,3)] assms(4,5) by (auto simp: status_of_Unprimed)

theorem status_never_back_to_unprimed_witness:
  "\<exists>s' ctx'. run Linux [StatDone 1 (stat_failed 2), TimerFired 1,
                         StatDone 1 (stat_ok (snapshot 10))] ex_polling = Some (Inr s')
      \<and> ctxs s' 1 = Some ctx' \<and> status_of ctx' \<noteq> Unprimed"
proof -
  let ?es = "[StatDone 1 (stat_failed 2), TimerFired 1, StatDone 1 (stat_ok (snapshot 10))]"
  obtain s' where r: "run Linux ?es ex_polling = Some (Inr s')" and f: "freed s' = []"
    by (simp add: eval_defs)
  have c: "ctxs ex_polling 1 = Some ex_ctx" by (simp add: ex_polling_def)
  have fr: "frees 1 s' = frees 1 ex_polling" using f by (simp add: frees_def ex_polling_def)
  have l: "list_all failure_has_code ?es"
    by (simp add: failure_has_code_def stat_failed_def stat_ok_def)
  have u: "status_of ex_ctx \<noteq> Unprimed" by (simp add: status_of_def ex_ctx_def)
  from status_never_back_to_unprimed [OF r c fr l u] r show ?thesis by blast
qed

text \<open>
  The condition on the completions is used: a request made up to report a failure with
  the error code 0 would take a Primed context back to Unprimed, since minus the code is
  0, the value that stands for Unprimed.
\<close>

lemma failure_without_code_unprimes:
  "status_at 1 (run Linux
      [CallStart (Some 1) 0 7 ''/tmp/f'' 100, StatDone 1 (stat_ok (snapshot 10))] ex_init)
     = Some Primed
   \<and> status_at 1 (run Linux
      [CallStart (Some 1) 0 7 ''/tmp/f'' 100, StatDone 1 (stat_ok (snapshot 10)),
       TimerFired 1, StatDone 1 (stat_failed 0)] ex_init)
     = Some Unprimed"
  by (simp add: status_at_def status_of_def eval_defs statbuf_eq_def)

text \<open>
  C9. Start on an inactive handle stores the interval 1 when asked for 0 and the interval
  asked for otherwise, so the stored interval is at least 1; and whatever happens later,
  the context has that interval for as long as it is not freed.
\<close>

theorem start_interval_at_least_1:
  assumes "handles s h = Some hnd" and "\<not> active hnd"
  shows "\<exists>s1 ctx1. uv_fs_poll_start (Some a) h cb pth ival s = Inr (0, s1)
           \<and> ctxs s1 a = Some ctx1
           \<and> interval ctx1 = (if ival = 0 then 1 else ival)
           \<and> 1 \<le> interval ctx1
           \<and> (\<forall>es s2. run p es s1 = Some (Inr s2) \<and> frees a s2 = frees a s1
                \<longrightarrow> (\<exists>ctx2. ctxs s2 a = Some ctx2 \<and> interval ctx2 = interval ctx1))"
proof -
  let ?i = "if ival = 0 then 1 else ival"
  from assms obtain s1 ctx1 where
    st: "uv_fs_poll_start (Some a) h cb pth ival s = Inr (0, s1)"
    and c1: "ctxs s1 a = Some ctx1" and i1: "interval ctx1 = ?i"
    by (auto simp: fs_poll_defs Let_def)
  have "?i \<noteq> 0" by simp
  then have le: "1 \<le> ?i" by (simp add: word_le_nat_alt unat_gt_0 Suc_le_eq del: if_split)
  from le i1 have le': "1 \<le> interval ctx1" by simp
  have life: "\<forall>es s2. run p es s1 = Some (Inr s2) \<and> frees a s2 = frees a s1
                \<longrightarrow> (\<exists>ctx2. ctxs s2 a = Some ctx2 \<and> interval ctx2 = interval ctx1)"
    using run_ctx_kept [OF _ c1] by blast
  from st c1 i1 le' life show ?thesis by blast
qed

theorem start_interval_at_least_1_witness:
  "\<exists>s1 ctx1 s2 ctx2. uv_fs_poll_start (Some 1) 0 7 ''/tmp/f'' 0 ex_init = Inr (0, s1)
      \<and> ctxs s1 1 = Some ctx1 \<and> interval ctx1 = 1
      \<and> run Linux [StatDone 1 (stat_ok (snapshot 10)), TimerFired 1] s1 = Some (Inr s2)
      \<and> ctxs s2 1 = Some ctx2 \<and> interval ctx2 = 1"
proof -
  have h: "handles ex_init 0 = Some \<lparr>active = False, poll_ctx = None\<rparr>"
    by (simp add: ex_init_def)
  have i: "\<not> active \<lparr>active = False, poll_ctx = None\<rparr>" by simp
  from start_interval_at_least_1 [OF h i, of 1 7 "''/tmp/f''" 0 Linux]
  obtain s1 ctx1 where st: "uv_fs_poll_start (Some 1) 0 7 ''/tmp/f'' 0 ex_init = Inr (0, s1)"
    and c1: "ctxs s1 1 = Some ctx1" and i1: "interval ctx1 = 1"
    and life: "\<forall>es s2. run Linux es s1 = Some (Inr s2) \<and> frees 1 s2 = frees 1 s1
                \<longrightarrow> (\<exists>ctx2. ctxs s2 1 = Some ctx2 \<and> interval ctx2 = interval ctx1)"
    by auto
  let ?es = "[StatDone 1 (stat_ok (snapshot 10)), TimerFired 1]"
  from st obtain s2 where r: "run Linux ?es s1 = Some (Inr s2)" and f: "freed s2 = freed s1"
    by (auto simp add: eval_defs)
  have fr: "frees 1 s2 = frees 1 s1" using f by (simp add: frees_def)
  from life [rule_format, OF conjI [OF r fr]] i1
  obtain ctx2 where c2: "ctxs s2 1 = Some ctx2" "interval ctx2 = 1"
    by auto
  from st c1 i1 r c2 show ?thesis by blast
qed

subsection \<open>Drift correction\<close>

lemma poll_cb_delay:
  assumes "ctxs s a = Some ctx" and "parent_handle ctx = Some h" and "interval ctx \<noteq> 0"
  shows "\<exists>s' ctx'. poll_cb p a req s = Inr s' \<and> ctxs s' a = Some ctx'
           \<and> timer_handle ctx' = TimerArmed
                (ucast (interval ctx) - (time s - start_time ctx) mod ucast (interval ctx))
           \<and> start_time ctx' = start_time ctx \<and> interval ctx' = interval ctx"
proof -
  let ?d = "ucast (interval ctx) - (time s - start_time ctx) mod ucast (interval ctx) :: 64 word"
  have i0: "(ucast (interval ctx) :: 64 word) \<noteq> 0"
    using assms(3) by (simp add: ucast_32_64_eq_0)
  obtain ctx1 s1 where obs: "poll_cb_observe p h req ctx s = (ctx1, s1)"
    by (cases "poll_cb_observe p h req ctx s")
  then have keep: "interval ctx1 = interval ctx" "start_time ctx1 = start_time ctx"
    "time s1 = time s" "ctxs s1 = ctxs s"
    by (auto simp: poll_cb_observe_def call_poll_cb_def uv__set_artificial_error_def
        split: if_splits)
  have out: "poll_cb_out ctx1 s1 = Inr (ctx1\<lparr>fs_req := False, timer_handle := TimerArmed ?d\<rparr>)"
    using i0 keep
    by (simp add: poll_cb_out_def uv_fs_req_cleanup_def uv_timer_start_def uv_now_def Let_def)
  have "poll_cb p a req s
        = Inr (s1\<lparr>ctxs := (ctxs s1)(a \<mapsto> ctx1\<lparr>fs_req := False, timer_handle := TimerArmed ?d\<rparr>)\<rparr>)"
    using assms(1,2) obs out by (simp add: poll_cb_def)
  then show ?thesis using keep by simp
qed

lemma cycle_begin_state:
  assumes "step p ev s = Some (Inr s1)" and "begins_cycle a ev"
    and "ctxs s1 a = Some ctx1" and "parent_handle ctx1 = Some h"
  shows "start_time ctx1 = time s \<and> fs_req ctx1 \<and> time s1 = time s"
  using assms
  by (cases ev)
    (auto simp: event_defs fs_poll_defs begins_cycle_def Let_def
      split: if_splits option.splits sum.splits prod.splits uv_timer_t.splits)

lemma step_within_cycle:
  assumes "step p ev s = Some (Inr s')" and "within_cycle a ev"
    and "ctxs s' a = Some ctx'" and "parent_handle ctx' = Some h"
  shows "ctxs s a = Some ctx' \<and> time s \<le> time s'"
  using assms
  by (cases ev)
    (auto simp: event_defs fs_poll_defs within_cycle_def Let_def
      split: if_splits option.splits sum.splits prod.splits uv_timer_t.splits)

lemma run_within_cycle:
  assumes "run p es s = Some (Inr s')" and "list_all (within_cycle a) es"
    and "ctxs s' a = Some ctx'" and "parent_handle ctx' = Some h"
  shows "ctxs s a = Some ctx' \<and> time s \<le> time s'"
  using assms
proof (induction es arbitrary: s)
  case Nil
  then show ?case by simp
next
  case (Cons ev es)
  from Cons.prems(1) obtain s1 where st: "step p ev s = Some (Inr s1)"
    and rest: "run p es s1 = Some (Inr s')"
    by (auto split: option.splits sum.splits)
  from Cons.prems(2) have ev: "within_cycle a ev" and es: "list_all (within_cycle a) es"
    by simp_all
  from Cons.IH [OF rest es Cons.prems(3,4)]
  have mid: "ctxs s1 a = Some ctx'" "time s1 \<le> time s'" by simp_all
  from step_within_cycle [OF st ev mid(1) Cons.prems(4)] mid(2)
  show ?case by auto
qed

text \<open>
  Once a cycle of the context at \<open>a\<close> has begun at time \<open>time s\<close>, whatever else happens
  until its stat completes, the completion on the still attached context arms the timer
  with the interval less the time since the cycle began, modulo the interval.
\<close>

lemma delay_after_cycle_begin:
  assumes "begins_cycle a ev" and "step p ev s = Some (Inr s1)"
    and "list_all (within_cycle a) es" and "run p es s1 = Some (Inr s2)"
    and "ctxs s2 a = Some ctx" and "parent_handle ctx = Some h"
    and "interval ctx \<noteq> 0"
  shows "\<exists>s' ctx' d. step p (StatDone a req) s2 = Some (Inr s')
           \<and> ctxs s' a = Some ctx' \<and> timer_handle ctx' = TimerArmed d
           \<and> d = ucast (interval ctx) - (time s2 - time s) mod ucast (interval ctx)
           \<and> unat d = unat (interval ctx)
                       - (unat (time s2) - unat (time s)) mod unat (interval ctx)"
proof -
  from run_within_cycle [OF assms(4,3,5,6)]
  have c1: "ctxs s1 a = Some ctx" and t1: "time s1 \<le> time s2" by simp_all
  from cycle_begin_state [OF assms(2,1) c1 assms(6)]
  have b: "start_time ctx = time s" "fs_req ctx" "time s1 = time s" by simp_all
  from poll_cb_delay [OF assms(5,6,7), of p req] b(1)
  obtain s' ctx' where p: "poll_cb p a req s2 = Inr s'" "ctxs s' a = Some ctx'"
    "timer_handle ctx' = TimerArmed
       (ucast (interval ctx) - (time s2 - time s) mod ucast (interval ctx))"
    by auto
  have r: "step p (StatDone a req) s2 = Some (Inr s')"
    using assms(5) b(2) p(1) by (simp add: event_defs)
  from t1 b(3) have "time s \<le> time s2" by simp
  with assms(7) have "unat (ucast (interval ctx) - (time s2 - time s) mod ucast (interval ctx) :: 64 word)
      = unat (interval ctx) - (unat (time s2) - unat (time s)) mod unat (interval ctx)"
    by (rule delay_unat)
  with r p(2,3) show ?thesis by blast
qed

text \<open>
  Where a cycle can begin, it does: start, and \<^verbatim>\<open>timer_cb\<close> when the timer fires, set
  \<^verbatim>\<open>start_time\<close> to the time of the loop and issue the stat request.
\<close>

lemma cycle_begins:
  assumes "cycle_can_begin a ev s"
  shows "begins_cycle a ev
         \<and> (\<exists>s1 ctx1 h. step p ev s = Some (Inr s1) \<and> ctxs s1 a = Some ctx1
               \<and> parent_handle ctx1 = Some h \<and> start_time ctx1 = time s \<and> fs_req ctx1
               \<and> interval ctx1 \<noteq> 0)"
  using assms
  by (cases ev)
    (auto simp: cycle_can_begin_def begins_cycle_def event_defs fs_poll_defs Let_def
      split: option.splits uv_timer_t.splits)

text \<open>
  C2. A poll cycle of the context at \<open>a\<close> begins at time \<open>time s\<close>, by start or by its
  timer firing: the event goes through, \<^verbatim>\<open>start_time\<close> is set to \<open>time s\<close> and the stat
  request is issued. Whatever else happens until the stat completes at time \<open>time s2\<close>,
  if the context is then attached, the completion arms the timer with the delay
  \<open>interval - ((time s2 - time s) mod interval)\<close>: the time taken off the interval is
  counted from the beginning of the cycle, not from an earlier completion. The delay is
  computed in 64-bit words, and it is the same number when computed in the naturals.
\<close>

theorem drift_corrected_delay:
  assumes "cycle_can_begin a ev s"
  shows "\<exists>s1 ctx1 h. step p ev s = Some (Inr s1) \<and> ctxs s1 a = Some ctx1
           \<and> parent_handle ctx1 = Some h \<and> start_time ctx1 = time s \<and> fs_req ctx1
           \<and> (\<forall>es s2 ctx h' req.
                 list_all (within_cycle a) es \<and> run p es s1 = Some (Inr s2)
                 \<and> ctxs s2 a = Some ctx \<and> parent_handle ctx = Some h'
                \<longrightarrow> (\<exists>s' ctx' d. step p (StatDone a req) s2 = Some (Inr s')
                       \<and> ctxs s' a = Some ctx' \<and> timer_handle ctx' = TimerArmed d
                       \<and> d = ucast (interval ctx1) - (time s2 - time s) mod ucast (interval ctx1)
                       \<and> unat d = unat (interval ctx1)
                           - (unat (time s2) - unat (time s)) mod unat (interval ctx1)))"
proof -
  from cycle_begins [OF assms, of p]
  obtain s1 ctx1 h where b: "begins_cycle a ev" and st: "step p ev s = Some (Inr s1)"
    and c1: "ctxs s1 a = Some ctx1" "parent_handle ctx1 = Some h"
      "start_time ctx1 = time s" "fs_req ctx1" and i1: "interval ctx1 \<noteq> 0"
    by blast
  have "\<exists>s' ctx' d. step p (StatDone a req) s2 = Some (Inr s')
          \<and> ctxs s' a = Some ctx' \<and> timer_handle ctx' = TimerArmed d
          \<and> d = ucast (interval ctx1) - (time s2 - time s) mod ucast (interval ctx1)
          \<and> unat d = unat (interval ctx1)
              - (unat (time s2) - unat (time s)) mod unat (interval ctx1)"
    if "list_all (within_cycle a) es" "run p es s1 = Some (Inr s2)"
      "ctxs s2 a = Some ctx" "parent_handle ctx = Some h'"
    for es s2 ctx h' req
  proof -
    from run_within_cycle [OF that(2,1,3,4)] c1(1) have same: "ctx = ctx1" by simp
    with i1 have i: "interval ctx \<noteq> 0" by simp
    from delay_after_cycle_begin [OF b st that(1,2,3,4) i, of req] same
    show ?thesis by simp
  qed
  with st c1 show ?thesis by blast
qed

text \<open>
  With an interval of 100 ms and a stat that takes 30 ms after start the delay is 70 ms.
  A timer that fires at 1110, in a context whose last cycle began at 1000, begins a cycle
  at 1110: a stat that completes at 1145 gives a delay of 65 ms.
\<close>

theorem drift_corrected_delay_witness:
  "(\<exists>s1 s2 s' ctx'. step Linux (CallStart (Some 1) 0 7 ''/tmp/f'' 100) ex_init = Some (Inr s1)
      \<and> run Linux [Clock 1010, Clock 1030] s1 = Some (Inr s2)
      \<and> step Linux (StatDone 1 (stat_ok (snapshot 10))) s2 = Some (Inr s')
      \<and> ctxs s' 1 = Some ctx' \<and> timer_handle ctx' = TimerArmed 70)
   \<and> (\<exists>s1 ctx1 s2 s' ctx'. step Linux (TimerFired 1) ex_waiting = Some (Inr s1)
      \<and> ctxs s1 1 = Some ctx1 \<and> start_time ctx1 = 1110 \<and> fs_req ctx1
      \<and> run Linux [Clock 1145] s1 = Some (Inr s2)
      \<and> step Linux (StatDone 1 (stat_ok (snapshot 10))) s2 = Some (Inr s')
      \<and> ctxs s' 1 = Some ctx' \<and> timer_handle ctx' = TimerArmed 65)"
proof -
  let ?req = "stat_ok (snapshot 10)"
  have first: "\<exists>s1 s2 s' ctx'. step Linux (CallStart (Some 1) 0 7 ''/tmp/f'' 100) ex_init = Some (Inr s1)
      \<and> run Linux [Clock 1010, Clock 1030] s1 = Some (Inr s2)
      \<and> step Linux (StatDone 1 ?req) s2 = Some (Inr s')
      \<and> ctxs s' 1 = Some ctx' \<and> timer_handle ctx' = TimerArmed 70"
  proof -
    let ?ev = "CallStart (Some 1) 0 7 ''/tmp/f'' 100"
    let ?es = "[Clock 1010, Clock 1030]"
    have can: "cycle_can_begin 1 ?ev ex_init"
      by (simp add: cycle_can_begin_def ex_init_def)
    from drift_corrected_delay [OF can, of Linux]
    obtain s1 ctx1 where st: "step Linux ?ev ex_init = Some (Inr s1)"
      and c1: "ctxs s1 1 = Some ctx1"
      and del: "\<forall>es s2 ctx h' req.
                 list_all (within_cycle 1) es \<and> run Linux es s1 = Some (Inr s2)
                 \<and> ctxs s2 1 = Some ctx \<and> parent_handle ctx = Some h'
                \<longrightarrow> (\<exists>s' ctx' d. step Linux (StatDone 1 req) s2 = Some (Inr s')
                       \<and> ctxs s' 1 = Some ctx' \<and> timer_handle ctx' = TimerArmed d
                       \<and> d = ucast (interval ctx1) - (time s2 - time ex_init) mod ucast (interval ctx1)
                       \<and> unat d = unat (interval ctx1)
                           - (unat (time s2) - unat (time ex_init)) mod unat (interval ctx1))"
      by blast
    from st c1 obtain s2 ctx where r: "run Linux ?es s1 = Some (Inr s2)"
      and c: "ctxs s2 1 = Some ctx" and a: "parent_handle ctx = Some 0"
      and i: "interval ctx1 = 100" and t: "time s2 = 1030"
      by (auto simp add: eval_defs)
    have l: "list_all (within_cycle 1) ?es" by (simp add: within_cycle_def)
    from del [rule_format, OF conjI [OF l conjI [OF r conjI [OF c a]]], of ?req] i t
    obtain s' ctx' where "step Linux (StatDone 1 ?req) s2 = Some (Inr s')"
      "ctxs s' 1 = Some ctx'" "timer_handle ctx' = TimerArmed 70"
      by (auto simp: ex_init_def)
    with st r show ?thesis by blast
  qed
  have second: "\<exists>s1 ctx1 s2 s' ctx'. step Linux (TimerFired 1) ex_waiting = Some (Inr s1)
      \<and> ctxs s1 1 = Some ctx1 \<and> start_time ctx1 = 1110 \<and> fs_req ctx1
      \<and> run Linux [Clock 1145] s1 = Some (Inr s2)
      \<and> step Linux (StatDone 1 ?req) s2 = Some (Inr s')
      \<and> ctxs s' 1 = Some ctx' \<and> timer_handle ctx' = TimerArmed 65"
  proof -
    let ?ev = "TimerFired 1"
    let ?es = "[Clock 1145]"
    have can: "cycle_can_begin 1 ?ev ex_waiting"
      by (simp add: cycle_can_begin_def ex_waiting_def ex_ctx_def)
    from drift_corrected_delay [OF can, of Linux]
    obtain s1 ctx1 where st: "step Linux ?ev ex_waiting = Some (Inr s1)"
      and c1: "ctxs s1 1 = Some ctx1" "start_time ctx1 = time ex_waiting" "fs_req ctx1"
      and del: "\<forall>es s2 ctx h' req.
                 list_all (within_cycle 1) es \<and> run Linux es s1 = Some (Inr s2)
                 \<and> ctxs s2 1 = Some ctx \<and> parent_handle ctx = Some h'
                \<longrightarrow> (\<exists>s' ctx' d. step Linux (StatDone 1 req) s2 = Some (Inr s')
                       \<and> ctxs s' 1 = Some ctx' \<and> timer_handle ctx' = TimerArmed d
                       \<and> d = ucast (interval ctx1) - (time s2 - time ex_waiting) mod ucast (interval ctx1)
                       \<and> unat d = unat (interval ctx1)
                           - (unat (time s2) - unat (time ex_waiting)) mod unat (interval ctx1))"
      by blast
    from st c1(1) obtain s2 ctx where r: "run Linux ?es s1 = Some (Inr s2)"
      and c: "ctxs s2 1 = Some ctx" and a: "parent_handle ctx = Some 0"
      and i: "interval ctx1 = 100" and t: "time s2 = 1145"
      by (auto simp add: eval_defs ex_waiting_def)
    have l: "list_all (within_cycle 1) ?es" by (simp add: within_cycle_def)
    from del [rule_format, OF conjI [OF l conjI [OF r conjI [OF c a]]], of ?req] i t
    obtain s' ctx' where "step Linux (StatDone 1 ?req) s2 = Some (Inr s')"
      "ctxs s' 1 = Some ctx'" "timer_handle ctx' = TimerArmed 65"
      by (auto simp: ex_waiting_def)
    moreover have "start_time ctx1 = 1110" using c1(2) by (simp add: ex_waiting_def)
    ultimately show ?thesis using st c1 r by blast
  qed
  from first second show ?thesis by blast
qed

subsection \<open>Stop while a stat request is in flight\<close>

lemma detached_closing_iff:
  "detached_closing a s \<longleftrightarrow>
     (\<exists>ctx. ctxs s a = Some ctx \<and> parent_handle ctx = None \<and> \<not> fs_req ctx
            \<and> timer_handle ctx = TimerClosing)"
  by (simp add: detached_closing_def split: option.splits)

lemma detached_stat_pending_iff:
  "detached_stat_pending a s \<longleftrightarrow>
     (\<exists>ctx. ctxs s a = Some ctx \<and> parent_handle ctx = None \<and> fs_req ctx
            \<and> timer_handle ctx = TimerIdle)"
  by (simp add: detached_stat_pending_def split: option.splits)

lemma step_gone:
  assumes "step p ev s = Some r" and "about_ctx a ev" and "ctxs s a = None"
  shows "\<exists>s'. r = Inr s' \<and> cb_calls s' = cb_calls s \<and> freed s' = freed s
           \<and> ctxs s' a = None \<and> \<not> is_timer_closed ev \<and> \<not> is_stat_done ev"
  using assms
  by (cases ev)
    (auto simp: step_def handle_event_def deliverable_def about_ctx_def is_timer_closed_def
      is_stat_done_def split: if_splits)

lemma step_closing:
  assumes "step p ev s = Some r" and "about_ctx a ev" and "detached_closing a s"
  shows "\<exists>s'. r = Inr s' \<and> cb_calls s' = cb_calls s \<and> \<not> is_stat_done ev
           \<and> (if is_timer_closed ev then freed s' = freed s @ [a] \<and> ctxs s' a = None
               else freed s' = freed s \<and> detached_closing a s')"
  using assms
  by (cases ev)
    (auto simp: step_def handle_event_def deliverable_def about_ctx_def is_timer_closed_def
      is_stat_done_def detached_closing_iff timer_close_cb_def
      split: if_splits)

lemma step_stat_pending:
  assumes "step p ev s = Some r" and "about_ctx a ev" and "detached_stat_pending a s"
  shows "\<exists>s'. r = Inr s' \<and> cb_calls s' = cb_calls s \<and> freed s' = freed s
           \<and> \<not> is_timer_closed ev
           \<and> (if is_stat_done ev then detached_closing a s' else detached_stat_pending a s')"
  using assms
  by (cases ev)
    (auto simp: step_def handle_event_def deliverable_def about_ctx_def is_timer_closed_def
      is_stat_done_def detached_closing_iff detached_stat_pending_iff poll_cb_def
      uv_close_def uv_fs_req_cleanup_def
      split: if_splits)

lemma run_gone:
  assumes "run p es s = Some r" and "list_all (about_ctx a) es" and "ctxs s a = None"
  shows "\<exists>s'. r = Inr s' \<and> cb_calls s' = cb_calls s \<and> freed s' = freed s
           \<and> ctxs s' a = None
           \<and> \<not> list_ex is_timer_closed es \<and> \<not> list_ex is_stat_done es"
  using assms
proof (induction es arbitrary: s)
  case Nil
  then show ?case by auto
next
  case (Cons ev es)
  from Cons.prems(1) obtain r1 where st: "step p ev s = Some r1"
    by (auto split: option.splits)
  from step_gone [OF st _ Cons.prems(3)] Cons.prems(2)
  obtain s1 where s1: "r1 = Inr s1" "cb_calls s1 = cb_calls s" "freed s1 = freed s"
    "ctxs s1 a = None" "\<not> is_timer_closed ev" "\<not> is_stat_done ev"
    by auto
  from Cons.prems(1) st s1(1) have rest: "run p es s1 = Some r" by simp
  from Cons.IH [OF rest _ s1(4)] Cons.prems(2) s1 show ?case by auto
qed

lemma run_closing:
  assumes "run p es s = Some r" and "list_all (about_ctx a) es" and "detached_closing a s"
  shows "\<exists>s'. r = Inr s' \<and> cb_calls s' = cb_calls s \<and> \<not> list_ex is_stat_done es
           \<and> (if list_ex is_timer_closed es then freed s' = freed s @ [a] \<and> ctxs s' a = None
               else freed s' = freed s \<and> detached_closing a s')"
  using assms
proof (induction es arbitrary: s)
  case Nil
  then show ?case by auto
next
  case (Cons ev es)
  from Cons.prems(1) obtain r1 where st: "step p ev s = Some r1"
    by (auto split: option.splits)
  from Cons.prems(2) have ev: "about_ctx a ev" and es: "list_all (about_ctx a) es"
    by simp_all
  from step_closing [OF st ev Cons.prems(3)]
  obtain s1 where s1: "r1 = Inr s1" "cb_calls s1 = cb_calls s" "\<not> is_stat_done ev"
    "if is_timer_closed ev then freed s1 = freed s @ [a] \<and> ctxs s1 a = None
     else freed s1 = freed s \<and> detached_closing a s1"
    by auto
  from Cons.prems(1) st s1(1) have rest: "run p es s1 = Some r" by simp
  show ?case
  proof (cases "is_timer_closed ev")
    case True
    with s1(4) have "freed s1 = freed s @ [a]" "ctxs s1 a = None" by simp_all
    with run_gone [OF rest es] s1 True show ?thesis by auto
  next
    case False
    with s1(4) have "freed s1 = freed s" "detached_closing a s1" by simp_all
    with Cons.IH [OF rest es] s1 False show ?thesis by auto
  qed
qed

lemma run_stat_pending:
  assumes "run p es s = Some r" and "list_all (about_ctx a) es" and "detached_stat_pending a s"
  shows "\<exists>s'. r = Inr s' \<and> cb_calls s' = cb_calls s
           \<and> (list_ex is_timer_closed es \<longrightarrow> list_ex is_stat_done es)
           \<and> (if list_ex is_timer_closed es then freed s' = freed s @ [a] \<and> ctxs s' a = None
               else freed s' = freed s \<and> ctxs s' a \<noteq> None)"
  using assms
proof (induction es arbitrary: s)
  case Nil
  then show ?case by (auto simp: detached_stat_pending_iff)
next
  case (Cons ev es)
  from Cons.prems(1) obtain r1 where st: "step p ev s = Some r1"
    by (auto split: option.splits)
  from Cons.prems(2) have ev: "about_ctx a ev" and es: "list_all (about_ctx a) es"
    by simp_all
  from step_stat_pending [OF st ev Cons.prems(3)]
  obtain s1 where s1: "r1 = Inr s1" "cb_calls s1 = cb_calls s" "freed s1 = freed s"
    "\<not> is_timer_closed ev"
    "if is_stat_done ev then detached_closing a s1 else detached_stat_pending a s1"
    by auto
  from Cons.prems(1) st s1(1) have rest: "run p es s1 = Some r" by simp
  show ?case
  proof (cases "is_stat_done ev")
    case True
    with s1(5) have "detached_closing a s1" by simp
    from run_closing [OF rest es this] s1 True show ?thesis
      by (auto simp: detached_closing_iff split: if_splits)
  next
    case False
    with s1(5) have "detached_stat_pending a s1" by simp
    from Cons.IH [OF rest es this] s1 False show ?thesis by auto
  qed
qed

text \<open>
  C1. Stop is called on an active handle while the stat request of its context is in
  flight. Stop itself calls no callback and frees nothing. When the completion of the stat
  and then the close notification of the timer are delivered, the context is freed, once,
  and no callback has been called. More generally, in every run of events delivered to
  that context after the stop, no callback is called; the context is freed exactly once
  if the run holds the close notification, which comes only after the stat completion,
  and is not freed otherwise.
\<close>

theorem stop_during_stat_frees_once:
  assumes "handles s h = Some hnd" and "active hnd" and "poll_ctx hnd = Some a"
    and "ctxs s a = Some ctx" and "parent_handle ctx = Some h"
    and "fs_req ctx" and "timer_handle ctx = TimerIdle"
  shows "\<exists>s1. uv_fs_poll_stop h s = Inr (0, s1)
           \<and> cb_calls s1 = cb_calls s \<and> freed s1 = freed s
           \<and> (\<exists>s3. run p [StatDone a req, TimerClosed a] s1 = Some (Inr s3)
                 \<and> cb_calls s3 = cb_calls s \<and> freed s3 = freed s @ [a] \<and> ctxs s3 a = None)
           \<and> (\<forall>es r. list_all (about_ctx a) es \<and> run p es s1 = Some r
                \<longrightarrow> (\<exists>s'. r = Inr s' \<and> cb_calls s' = cb_calls s
                       \<and> (list_ex is_timer_closed es \<longrightarrow> list_ex is_stat_done es)
                       \<and> (if list_ex is_timer_closed es
                           then freed s' = freed s @ [a] \<and> ctxs s' a = None
                           else freed s' = freed s \<and> ctxs s' a \<noteq> None)))"
proof -
  define s1 where "s1 = s\<lparr> ctxs := (ctxs s)(a \<mapsto> uv_timer_stop (ctx\<lparr>parent_handle := None\<rparr>)),
                          handles := (handles s)(h \<mapsto> uv__handle_stop (hnd\<lparr>poll_ctx := None\<rparr>)) \<rparr>"
  have stop: "uv_fs_poll_stop h s = Inr (0, s1)"
    using assms by (simp add: uv_fs_poll_stop_def uv__is_active_def s1_def)
  have same: "cb_calls s1 = cb_calls s" "freed s1 = freed s"
    by (simp_all add: s1_def)
  have pend: "detached_stat_pending a s1"
    using assms by (simp add: s1_def detached_stat_pending_iff uv_timer_stop_def)
  have "\<exists>s3. run p [StatDone a req, TimerClosed a] s1 = Some (Inr s3)
                 \<and> cb_calls s3 = cb_calls s \<and> freed s3 = freed s @ [a] \<and> ctxs s3 a = None"
    using assms
    by (simp add: s1_def step_def deliverable_def handle_event_def poll_cb_def uv_timer_stop_def
        uv_close_def uv_fs_req_cleanup_def timer_close_cb_def)
  moreover have "\<forall>es r. list_all (about_ctx a) es \<and> run p es s1 = Some r
                \<longrightarrow> (\<exists>s'. r = Inr s' \<and> cb_calls s' = cb_calls s
                       \<and> (list_ex is_timer_closed es \<longrightarrow> list_ex is_stat_done es)
                       \<and> (if list_ex is_timer_closed es
                           then freed s' = freed s @ [a] \<and> ctxs s' a = None
                           else freed s' = freed s \<and> ctxs s' a \<noteq> None))"
    using run_stat_pending [OF _ _ pend] same by metis
  ultimately show ?thesis using stop same by blast
qed

theorem stop_during_stat_frees_once_witness:
  "\<exists>s1. uv_fs_poll_stop 0 ex_polling = Inr (0, s1)
      \<and> calls_of (run Linux [StatDone 1 (stat_ok (snapshot 20)), TimerClosed 1] s1) = Some []
      \<and> (\<exists>s'. run Linux [Clock 1040, StatDone 1 (stat_ok (snapshot 20)), Clock 1050,
                          TimerClosed 1, Clock 1060] s1 = Some (Inr s')
            \<and> cb_calls s' = [] \<and> freed s' = [1] \<and> ctxs s' 1 = None)"
proof -
  have a: "handles ex_polling 0 = Some \<lparr>active = True, poll_ctx = Some 1\<rparr>"
    "active \<lparr>active = True, poll_ctx = Some 1\<rparr>"
    "poll_ctx \<lparr>active = True, poll_ctx = Some 1\<rparr> = Some 1"
    "ctxs ex_polling 1 = Some ex_ctx" "parent_handle ex_ctx = Some 0"
    "fs_req ex_ctx" "timer_handle ex_ctx = TimerIdle"
    by (simp_all add: ex_polling_def ex_ctx_def)
  let ?es = "[Clock 1040, StatDone 1 (stat_ok (snapshot 20)), Clock 1050, TimerClosed 1,
              Clock 1060]"
  from stop_during_stat_frees_once [OF a, of Linux "stat_ok (snapshot 20)"]
  obtain s1 s3 where st: "uv_fs_poll_stop 0 ex_polling = Inr (0, s1)"
    and sc: "run Linux [StatDone 1 (stat_ok (snapshot 20)), TimerClosed 1] s1 = Some (Inr s3)"
      "cb_calls s3 = cb_calls ex_polling"
    and gen: "\<forall>es r. list_all (about_ctx 1) es \<and> run Linux es s1 = Some r
                \<longrightarrow> (\<exists>s'. r = Inr s' \<and> cb_calls s' = cb_calls ex_polling
                       \<and> (list_ex is_timer_closed es \<longrightarrow> list_ex is_stat_done es)
                       \<and> (if list_ex is_timer_closed es
                           then freed s' = freed ex_polling @ [1] \<and> ctxs s' 1 = None
                           else freed s' = freed ex_polling \<and> ctxs s' 1 \<noteq> None))"
    by blast
  from st obtain r where r: "run Linux ?es s1 = Some r"
    by (auto simp add: eval_defs)
  have l: "list_all (about_ctx 1) ?es" by (simp add: about_ctx_def)
  have tc: "list_ex is_timer_closed ?es" by (simp add: is_timer_closed_def)
  from gen [rule_format, OF conjI [OF l r]]
  obtain s' where s': "r = Inr s'" "cb_calls s' = cb_calls ex_polling"
    "if list_ex is_timer_closed ?es
     then freed s' = freed ex_polling @ [1] \<and> ctxs s' 1 = None
     else freed s' = freed ex_polling \<and> ctxs s' 1 \<noteq> None"
    by blast
  from s'(3) have fin: "freed s' = freed ex_polling @ [1]" "ctxs s' 1 = None"
    unfolding if_P [OF tc] by blast+
  have e: "cb_calls ex_polling = []" "freed ex_polling = []"
    by (simp_all add: ex_polling_def)
  have "calls_of (run Linux [StatDone 1 (stat_ok (snapshot 20)), TimerClosed 1] s1) = Some []"
    unfolding sc(1) using sc(2) e by (simp add: calls_of_def)
  moreover have "run Linux ?es s1 = Some (Inr s')" using r s'(1) by simp
  moreover have "cb_calls s' = []" "freed s' = [1]" using s'(2) fin e by simp_all
  ultimately show ?thesis using st fin(2) by blast
qed

end
